theory Spec2Isabelle
  imports Main "HOL-Library.Sublist"
begin

section \<open>Notebook 08: loading the CSV dataframe into the SQL database\<close>

subsection \<open>The CREATE TABLE statement\<close>

text \<open>
  The cell builds the statement from \<^verbatim>\<open>column_types = df.dtypes.to_dict()\<close>, a dict from
  column name to dtype that iterates in dataframe column order. It is modelled as the list
  of its items. A dtype is represented by its name, the string the comparisons
  \<^verbatim>\<open>dtype == 'object'\<close>, ... read it against.
\<close>

type_synonym column_types = "(string \<times> string) list"

definition table_name :: string where
  "table_name = ''covidtracking''"

text \<open>
  One pass of the body of \<^verbatim>\<open>for name, dtype in column_types.items()\<close>: the
  \<^verbatim>\<open>if/elif\<close> chain has no \<^verbatim>\<open>else\<close>, so any other dtype leaves the statement
  unchanged.
\<close>

fun add_column :: "string \<Rightarrow> string \<times> string \<Rightarrow> string" where
  "add_column sql (name, dtype) =
     (if dtype = ''object'' then sql @ name @ '' VARCHAR(MAX), ''
      else if dtype = ''int64'' then sql @ name @ '' INT, ''
      else if dtype = ''float64'' then sql @ name @ '' FLOAT, ''
      else if dtype = ''bool'' then sql @ name @ '' BIT, ''
      else if dtype = ''datetime64[ns]'' then sql @ name @ '' DATETIME, ''
      else sql)"

text \<open>Python's \<^verbatim>\<open>s[:-2]\<close>: all but the last two characters, empty when there are fewer.\<close>

definition drop_last_two :: "string \<Rightarrow> string" where
  "drop_last_two s = take (length s - 2) s"

definition create_table_sql :: "column_types \<Rightarrow> string" where
  "create_table_sql cts =
     drop_last_two (foldl add_column (''CREATE TABLE '' @ table_name @ '' ('') cts) @ '')''"

text \<open>
  The reading of the specification: the dtypes that have a SQL type, the SQL type of each
  (\<open>sql_type\<close> is read at those five only), the declaration of one column, and the
  declarations of a dataframe: those of its columns of a supported dtype, in column order.
  \<open>join_with\<close> is Python's \<^verbatim>\<open>sep.join(parts)\<close>.
\<close>

definition supported_dtypes :: "string list" where
  "supported_dtypes = [''object'', ''int64'', ''float64'', ''bool'', ''datetime64[ns]'']"

definition sql_type :: "string \<Rightarrow> string" where
  "sql_type dtype =
     (if dtype = ''object'' then ''VARCHAR(MAX)''
      else if dtype = ''int64'' then ''INT''
      else if dtype = ''float64'' then ''FLOAT''
      else if dtype = ''bool'' then ''BIT''
      else ''DATETIME'')"

definition column_declaration :: "string \<times> string \<Rightarrow> string" where
  "column_declaration c = fst c @ '' '' @ sql_type (snd c)"

definition spec_declarations :: "column_types \<Rightarrow> string list" where
  "spec_declarations cts =
     map column_declaration (filter (\<lambda>c. snd c \<in> set supported_dtypes) cts)"

fun join_with :: "string \<Rightarrow> string list \<Rightarrow> string" where
  "join_with sep [] = []"
| "join_with sep [p] = p"
| "join_with sep (p # q # ps) = p @ sep @ join_with sep (q # ps)"

subsection \<open>The batched insertion loop\<close>

text \<open>
  The dataframe is the list of its rows; \<^verbatim>\<open>df[lower:upper]\<close> with non-negative bounds is
  the positional row slice, empty when \<open>upper \<le> lower\<close> and cut at the end of the frame.
\<close>

definition row_slice :: "'row list \<Rightarrow> nat \<Rightarrow> nat \<Rightarrow> 'row list" where
  "row_slice df lower upper = take (upper - lower) (drop lower df)"

text \<open>
  The state the loop changes: the table in the database, the \<^verbatim>\<open>to_sql\<close> calls made (each
  with the rows it was given) and the bounds printed after each call.
\<close>

record 'row load_state =
  table_rows :: "'row list"
  inserts :: "'row list list"
  printed :: "(nat \<times> nat) list"

text \<open>
  \<^verbatim>\<open>to_sql(table_name, con=engine, if_exists='append', index=False)\<close> is the database's
  part: it returns the new table, or raises. The loop stands inside \<^verbatim>\<open>try\<close>, so a raise
  leaves it with the state reached so far; the message is what \<^verbatim>\<open>print(e)\<close> shows.
\<close>

type_synonym 'row to_sql = "'row list \<Rightarrow> 'row list \<Rightarrow> string + 'row list"

definition to_sql_append :: "'row to_sql" where
  "to_sql_append batch tbl = Inr (tbl @ batch)"

function insert_loop ::
  "'row to_sql \<Rightarrow> 'row list \<Rightarrow> nat \<Rightarrow> nat \<Rightarrow> nat \<Rightarrow> 'row load_state
     \<Rightarrow> 'row load_state \<times> string option" where
  "insert_loop to_sql df lower upper limit st =
     (if lower < limit then
        (case to_sql (row_slice df lower upper) (table_rows st) of
           Inl e \<Rightarrow> (st, Some e)
         | Inr tbl \<Rightarrow>
             insert_loop to_sql df upper (min (upper + 1000) limit) limit
               (st\<lparr>table_rows := tbl,
                   inserts := inserts st @ [row_slice df lower upper],
                   printed := printed st @ [(lower, upper)]\<rparr>))
      else (st, None))"
  by pat_completeness auto
termination
  by (relation "measure (\<lambda>(to_sql, df, lower, upper, limit, st).
        (limit - upper) + (if lower < limit then 1 else 0))") auto

declare insert_loop.simps [simp del]

text \<open>
  \<^verbatim>\<open>lower = 0; upper = 1000; limit = df.shape[0]\<close>, then the loop, on a table that already
  holds \<open>tbl\<close>.
\<close>

definition load_rows :: "'row to_sql \<Rightarrow> 'row list \<Rightarrow> 'row list \<Rightarrow> 'row load_state \<times> string option" where
  "load_rows to_sql df tbl =
     insert_loop to_sql df 0 1000 (length df) \<lparr>table_rows = tbl, inserts = [], printed = []\<rparr>"

text \<open>
  The reading of the specification: the \<open>i\<close>-th block of at most 1000 consecutive rows,
  and the number of blocks of a dataframe of \<open>n\<close> rows.
\<close>

definition block :: "'row list \<Rightarrow> nat \<Rightarrow> 'row list" where
  "block df i = take 1000 (drop (1000 * i) df)"

definition block_count :: "nat \<Rightarrow> nat" where
  "block_count n = (n + 999) div 1000"

section \<open>Notebook 09: the Bing search agent\<close>

subsection \<open>Exceptions\<close>

text \<open>
  A raised Python exception, by what the notebook's handlers can tell of it: whether its
  class derives from \<^verbatim>\<open>Exception\<close> (what \<^verbatim>\<open>except Exception\<close> catches) or only from
  \<^verbatim>\<open>BaseException\<close> (KeyboardInterrupt, SystemExit, a cancelled task), and the text
  \<^verbatim>\<open>str(e)\<close> gives.
\<close>

datatype raised = Exception string | BaseException string

subsection \<open>The Bing search tool\<close>

text \<open>
  \<^verbatim>\<open>BingSearchAPIWrapper\<close> is a class of the langchain library. The notebook constructs it
  with \<^verbatim>\<open>k=self.k\<close> and calls its method \<^verbatim>\<open>results(query, num_results)\<close>, the web
  request, which is not code of the notebook: it is a parameter here, a function of the
  wrapper, the query and the number of results that returns the results or raises.
\<close>

record BingSearchAPIWrapper =
  wrapper_k :: int

type_synonym 'r results = "BingSearchAPIWrapper \<Rightarrow> string \<Rightarrow> int \<Rightarrow> raised + 'r"

text \<open>\<^verbatim>\<open>class MyBingSearch(BaseTool)\<close> with its field \<^verbatim>\<open>k: int = 5\<close>.\<close>

record MyBingSearch =
  tool_k :: int

definition MyBingSearch_name :: string where
  "MyBingSearch_name = ''Searcher''"

definition MyBingSearch_default :: MyBingSearch where
  "MyBingSearch_default = \<lparr>tool_k = 5\<rparr>"

text \<open>\<^verbatim>\<open>_run\<close>: the keyword argument \<^verbatim>\<open>num_results=self.k\<close> binds the second parameter.\<close>

definition MyBingSearch_run :: "'r results \<Rightarrow> MyBingSearch \<Rightarrow> string \<Rightarrow> raised + 'r" where
  "MyBingSearch_run results self query =
     (let bing = \<lparr>wrapper_k = tool_k self\<rparr>
      in results bing query (tool_k self))"

text \<open>
  \<^verbatim>\<open>loop.run_in_executor(ThreadPoolExecutor(), func, *args)\<close> runs \<^verbatim>\<open>func(*args)\<close> on a
  worker thread and gives a future that holds what the call returned or raised;
  \<^verbatim>\<open>await\<close> on the future returns that value or raises that exception. Which thread runs
  the call, and that the event loop is free meanwhile, is not part of the value.
\<close>

datatype 'r future = Future "raised + 'r"

definition run_in_executor :: "('a \<Rightarrow> 'b \<Rightarrow> raised + 'r) \<Rightarrow> 'a \<Rightarrow> 'b \<Rightarrow> 'r future" where
  "run_in_executor func a b = Future (func a b)"

fun await :: "'r future \<Rightarrow> raised + 'r" where
  "await (Future r) = r"

text \<open>\<^verbatim>\<open>_arun\<close>: the positional arguments \<^verbatim>\<open>query, self.k\<close> bind the two parameters in order.\<close>

definition MyBingSearch_arun :: "'r results \<Rightarrow> MyBingSearch \<Rightarrow> string \<Rightarrow> raised + 'r" where
  "MyBingSearch_arun results self query =
     (let bing = \<lparr>wrapper_k = tool_k self\<rparr>;
          fut = run_in_executor (results bing) query (tool_k self)
      in await fut)"

subsection \<open>The consumer of the streamed chunks\<close>

text \<open>
  A chunk of \<^verbatim>\<open>agent_executor.astream\<close> is a dict; the loop tests it for the keys
  \<^verbatim>\<open>"actions"\<close>, \<^verbatim>\<open>"steps"\<close> and \<^verbatim>\<open>"output"\<close> and reads \<^verbatim>\<open>action.tool\<close> and
  \<^verbatim>\<open>action.tool_input\<close> of each element of \<^verbatim>\<open>chunk["actions"]\<close>. The tool input is
  represented by the text its formatting prints.
\<close>

datatype AgentAction = AgentAction (tool: string) (tool_input: string)

datatype AgentStep = AgentStep AgentAction string

datatype chunk_value =
    Actions "AgentAction list"
  | Steps "AgentStep list"
  | Output string
  | Other string

type_synonym chunk = "string \<rightharpoonup> chunk_value"

datatype consumer_error = ValueError | AttributeError

definition calling_line :: "AgentAction \<Rightarrow> string" where
  "calling_line a = ''Calling Tool: `'' @ tool a @ ''` with input `'' @ tool_input a @ ''`''"

text \<open>
  The body of \<^verbatim>\<open>async for chunk in agent_executor.astream(...)\<close>, over the chunks in the
  order they are delivered, with the lines printed so far. The branches that \<^verbatim>\<open>continue\<close>
  skip the final \<^verbatim>\<open>print("---")\<close>. A value under \<^verbatim>\<open>"actions"\<close> that is not a list of
  actions has no \<^verbatim>\<open>.tool\<close> to read: the body raises there (not a ValueError).
\<close>

fun stream_consumer :: "chunk list \<Rightarrow> string list \<Rightarrow> string list \<times> consumer_error option" where
  "stream_consumer [] out = (out, None)"
| "stream_consumer (chunk # rest) out =
     (if chunk ''actions'' \<noteq> None then
        (case chunk ''actions'' of
           Some (Actions acts) \<Rightarrow>
             stream_consumer rest (out @ map calling_line acts @ [''---''])
         | _ \<Rightarrow> (out, Some AttributeError))
      else if chunk ''steps'' \<noteq> None then stream_consumer rest out
      else if chunk ''output'' \<noteq> None then stream_consumer rest out
      else (out, Some ValueError))"

text \<open>
  The three event kinds of the streaming interface, by the key that tags them, and a chunk
  that is exactly one of them.
\<close>

definition event_keys :: "string list" where
  "event_keys = [''actions'', ''steps'', ''output'']"

definition one_event_kind :: "chunk \<Rightarrow> bool" where
  "one_event_kind chunk = (length (filter (\<lambda>key. chunk key \<noteq> None) event_keys) = 1)"

text \<open>A chunk whose \<^verbatim>\<open>"actions"\<close>, when present, is a list of actions.\<close>

definition actions_typed :: "chunk \<Rightarrow> bool" where
  "actions_typed chunk =
     (case chunk ''actions'' of Some (Actions acts) \<Rightarrow> True | Some other \<Rightarrow> False | None \<Rightarrow> True)"

subsection \<open>The blocking invoke cell\<close>

text \<open>
  \<^verbatim>\<open>agent_executor.invoke\<close> is langchain's. What the cell can see of a call is taken as a
  parameter: the call returns the response dict, which with
  \<^verbatim>\<open>return_intermediate_steps=True\<close> holds the answer under \<^verbatim>\<open>"output"\<close> and the step
  trail under \<^verbatim>\<open>"intermediate_steps"\<close>; or it raises, after the run has accumulated some
  steps inside the executor. (\<open>output\<close> is a keyword of Isabelle, hence \<open>response_output\<close>.)
\<close>

record response =
  response_output :: string
  intermediate_steps :: "AgentStep list"

datatype run_result = Returned response | Raised raised "AgentStep list"

fun accumulated_steps :: "run_result \<Rightarrow> AgentStep list" where
  "accumulated_steps (Returned r) = intermediate_steps r"
| "accumulated_steps (Raised e trail) = trail"

text \<open>
  What the variable \<^verbatim>\<open>response\<close> holds after the cell: the dict, or the string
  \<^verbatim>\<open>str(e)\<close>. The step trail that a reader of \<^verbatim>\<open>response\<close> can get out of it.
\<close>

datatype cell_response = Dict response | Str string

fun step_trail :: "cell_response \<Rightarrow> AgentStep list option" where
  "step_trail (Dict r) = Some (intermediate_steps r)"
| "step_trail (Str s) = None"

text \<open>
  \<^verbatim>\<open>try: response = agent_executor.invoke({"question":QUESTION})\<close>
  \<^verbatim>\<open>except Exception as e: response = str(e)\<close>.
  The result is \<open>Inl\<close> when an exception leaves the cell.
\<close>

fun invoke_cell :: "(string \<Rightarrow> run_result) \<Rightarrow> string \<Rightarrow> raised + cell_response" where
  "invoke_cell invoke question =
     (case invoke question of
        Returned r \<Rightarrow> Inr (Dict r)
      | Raised (Exception msg) trail \<Rightarrow> Inr (Str msg)
      | Raised (BaseException msg) trail \<Rightarrow> Inl (BaseException msg))"

text \<open>
  A run for the counterexample: the searcher is called once, its result is recorded, and
  the next call raises.
\<close>

definition recorded_step :: AgentStep where
  "recorded_step = AgentStep (AgentAction ''Searcher'' ''50 USD in EUR'') ''1 USD = 0.9068 EUR''"

definition failing_invoke :: "string \<Rightarrow> run_result" where
  "failing_invoke question = Raised (Exception ''HTTPError: 503'') [recorded_step]"

text \<open>
  The reading of the specification for the blocking interface: no exception leaves the
  cell, and the response the caller holds carries the steps the run accumulated (the full
  trail beside a final answer, the partial trail beside an error).
\<close>

definition answer_or_error_with_trail :: "(string \<Rightarrow> run_result) \<Rightarrow> string \<Rightarrow> bool" where
  "answer_or_error_with_trail invoke question =
     (case invoke_cell invoke question of
        Inl e \<Rightarrow> False
      | Inr resp \<Rightarrow> step_trail resp = Some (accumulated_steps (invoke question)))"

text \<open>Chunks for a sample stream: one of each kind, as the executor tags them.\<close>

definition action_chunk :: chunk where
  "action_chunk =
     [''actions'' \<mapsto> Actions [AgentAction ''Searcher'' ''50 USD in EUR''],
      ''messages'' \<mapsto> Other ''tool call'']"

definition step_chunk :: chunk where
  "step_chunk = [''steps'' \<mapsto> Steps [recorded_step], ''messages'' \<mapsto> Other ''tool result'']"

definition output_chunk :: chunk where
  "output_chunk = [''output'' \<mapsto> Output ''45.34 EUR'', ''messages'' \<mapsto> Other ''answer'']"

definition message_chunk :: chunk where
  "message_chunk = [''messages'' \<mapsto> Other ''heartbeat'']"

section \<open>The agent loop of the specification\<close>

text \<open>
  The notebooks construct langchain's \<^verbatim>\<open>AgentExecutor\<close> and call \<^verbatim>\<open>astream\<close> and
  \<^verbatim>\<open>invoke\<close> on it; the loop itself is not in the repository's files. The definitions of
  this section follow sections 3 and 4 of the specification instead.
\<close>

subsection \<open>Data model\<close>

text \<open>
  Modelled from the spec: the executor's Action is missing; section 3 gives "a proposed
  tool invocation: tool name, structured input arguments, and an opaque invocation
  identifier".
\<close>

record action =
  tool_name :: string
  input_arguments :: string
  invocation_id :: nat

text \<open>
  Modelled from the spec: the executor's Observation is missing; section 3 gives "a tool's
  result (text or error) keyed by the Action's invocation identifier".
\<close>

datatype tool_result = Result string | Error string

record observation =
  for_invocation :: nat
  result :: tool_result

text \<open>
  Modelled from the spec: the executor's Step is missing; section 3 gives "the pairing of
  one Action with its Observation".
\<close>

type_synonym step = "action \<times> observation"

text \<open>
  Modelled from the spec: the Language-Model Client's answer is missing; section 4.2 gives
  "(a) one or more Actions to execute next, or (b) a terminal answer string", and section
  7 names the response that "parses to neither Actions nor an answer".
\<close>

datatype model_output = NextActions action "action list" | FinalAnswer string | Neither

text \<open>
  Modelled from the spec: the terminal errors of a run are missing; section 7 sets
  resource exhaustion apart from protocol errors, and section 3 lets a run end with
  "the eventual final answer or terminal error".
\<close>

datatype terminal_error = ResourceExhaustion | ProtocolError

datatype outcome = Success string | Failure terminal_error

text \<open>
  Modelled from the spec: the streamed events are missing; section 6 gives the "stream of
  {action-issued | observation-recorded | final-answer}".
\<close>

datatype event =
    ActionIssued action
  | ObservationRecorded action observation
  | FinalAnswerEvent string

text \<open>
  Modelled from the spec: the states of the Agent Loop are missing; section 4.3 lists
  them.
\<close>

datatype agent_state = STARTED | AWAITING_MODEL | DISPATCHING_TOOLS | DONE | FAILED

text \<open>
  Modelled from the spec: the Tool Registry and the configuration of a run are missing.
  Section 4.1: a Tool has a name, unique within its registry, and an execution operation
  that "returns either a success payload or a failure signal" (\<open>Inr\<close> and \<open>Inl\<close>); section
  9 resolves a tool "by name through a mapping". Section 4.2: the client answers from the
  Question and "the ordered Step history so far". Section 4.3: the maximum iteration
  count is configured; the specification gives it no value, so it is a parameter.
\<close>

type_synonym tool_registry = "(string \<times> (string \<Rightarrow> string + string)) list"

record agent_config =
  registry :: tool_registry
  language_model :: "string \<Rightarrow> step list \<Rightarrow> model_output"
  max_iterations :: nat

text \<open>
  Modelled from the spec: the AgentRun is missing; section 3 gives "the full ordered
  sequence of Steps plus the eventual final answer or terminal error for one Question".
  Beside them stand the state of the loop, the Actions of the current turn that have no
  Observation yet, the number of model invocations made, and the events streamed so far.
\<close>

record agent_run =
  phase :: agent_state
  question :: string
  step_sequence :: "step list"
  turn_actions :: "action list"
  iterations :: nat
  stream :: "event list"
  final :: "outcome option"

text \<open>
  Modelled from the spec: the start of a run is missing; section 4.3 gives "STARTED:
  Question received, empty Step sequence".
\<close>

definition start :: "string \<Rightarrow> agent_run" where
  "start q =
     \<lparr>phase = STARTED, question = q, step_sequence = [], turn_actions = [], iterations = 0,
      stream = [], final = None\<rparr>"

subsection \<open>The state machine\<close>

text \<open>
  Modelled from the spec: the dispatch of one Action is missing. Section 4.3: "resolve via
  Tool Registry and execute; ... each execution failure becomes an Observation carrying
  an error description (not a hard stop)". Section 4.1: an unknown tool is "a
  recoverable error: the Agent Loop surfaces this as an observation, not a crash".
\<close>

definition dispatch :: "tool_registry \<Rightarrow> action \<Rightarrow> observation" where
  "dispatch reg a =
     \<lparr>for_invocation = invocation_id a,
      result =
        (case map_of reg (tool_name a) of
           None \<Rightarrow> Error ''unknown tool''
         | Some execute \<Rightarrow>
             (case execute (input_arguments a) of
                Inl failure \<Rightarrow> Error failure
              | Inr payload \<Rightarrow> Result payload))\<rparr>"

text \<open>
  Modelled from the spec: one transition of the Agent Loop is missing; section 4.3.
  \<^item> STARTED goes to AWAITING_MODEL.
  \<^item> AWAITING_MODEL: FAILED with resource exhaustion when the configured maximum
    iteration count is used up; otherwise the client is queried with the history, and the
    run goes to DISPATCHING_TOOLS with the turn's Actions (each streamed as
    action-issued), to DONE with the final answer, or to FAILED with a protocol error when
    the response is neither.
  \<^item> DISPATCHING_TOOLS: the next Action of the turn, in the order issued, is executed and
    its Step appended (streamed as observation-recorded); "after all Actions of the turn
    have Observations, transition back to AWAITING_MODEL".
  \<^item> DONE and FAILED are final.
  Actions of one turn are independent, and a tool is a function of its input here, so the
  order of execution does not show in the Observations; the Steps are appended in the
  order of issuance, as section 4.3 requires of a concurrent dispatch. Section 7 would
  have a protocol error recovered once and escalated when repeated; section 4.3 and
  section 4.1 are followed here: a response that is neither ends the run, an unknown tool
  is an Observation every time, and the iteration count bounds the retries.
\<close>

definition agent_step :: "agent_config \<Rightarrow> agent_run \<Rightarrow> agent_run" where
  "agent_step cfg r =
     (case phase r of
        STARTED \<Rightarrow> r\<lparr>phase := AWAITING_MODEL\<rparr>
      | AWAITING_MODEL \<Rightarrow>
          (if max_iterations cfg \<le> iterations r then
             r\<lparr>phase := FAILED, final := Some (Failure ResourceExhaustion)\<rparr>
           else
             (case language_model cfg (question r) (step_sequence r) of
                NextActions a acts \<Rightarrow>
                  r\<lparr>phase := DISPATCHING_TOOLS, turn_actions := a # acts,
                    iterations := iterations r + 1,
                    stream := stream r @ map ActionIssued (a # acts)\<rparr>
              | FinalAnswer answer \<Rightarrow>
                  r\<lparr>phase := DONE, iterations := iterations r + 1,
                    stream := stream r @ [FinalAnswerEvent answer],
                    final := Some (Success answer)\<rparr>
              | Neither \<Rightarrow>
                  r\<lparr>phase := FAILED, iterations := iterations r + 1,
                    final := Some (Failure ProtocolError)\<rparr>))
      | DISPATCHING_TOOLS \<Rightarrow>
          (case turn_actions r of
             [] \<Rightarrow> r\<lparr>phase := AWAITING_MODEL\<rparr>
           | a # rest \<Rightarrow>
               r\<lparr>step_sequence := step_sequence r @ [(a, dispatch (registry cfg) a)],
                 turn_actions := rest,
                 stream := stream r @ [ObservationRecorded a (dispatch (registry cfg) a)]\<rparr>)
      | DONE \<Rightarrow> r
      | FAILED \<Rightarrow> r)"

text \<open>
  Modelled from the spec: the loop itself is missing; it "drives repeated
  model-invocation, tool-dispatch, observation-recording cycles until a final answer or a
  stop condition is reached" (section 2).
\<close>

fun phase_rank :: "agent_state \<Rightarrow> nat" where
  "phase_rank STARTED = 3"
| "phase_rank DISPATCHING_TOOLS = 2"
| "phase_rank AWAITING_MODEL = 1"
| "phase_rank DONE = 0"
| "phase_rank FAILED = 0"

function run :: "agent_config \<Rightarrow> agent_run \<Rightarrow> agent_run" where
  "run cfg r =
     (if phase r = DONE \<or> phase r = FAILED then r else run cfg (agent_step cfg r))"
  by pat_completeness auto
termination
  by (relation "measures
        [\<lambda>(cfg, r). max_iterations cfg - iterations r,
         \<lambda>(cfg, r). phase_rank (phase r),
         \<lambda>(cfg, r). length (turn_actions r)]")
     (auto simp: agent_step_def split: agent_state.splits model_output.splits list.splits)

declare run.simps [simp del]

text \<open>
  Modelled from the spec: the readers of the stream are missing. The Actions a consumer
  has seen issued, and the Steps it has seen recorded, in the order of the events.
\<close>

fun issued :: "event list \<Rightarrow> action list" where
  "issued [] = []"
| "issued (ActionIssued a # es) = a # issued es"
| "issued (e # es) = issued es"

fun recorded :: "event list \<Rightarrow> step list" where
  "recorded [] = []"
| "recorded (ObservationRecorded a obs # es) = (a, obs) # recorded es"
| "recorded (e # es) = recorded es"

text \<open>A sample run: one turn with two searches, one of them failing, then the answer.\<close>

definition usd_search :: action where
  "usd_search = \<lparr>tool_name = ''Searcher'', input_arguments = ''50 USD in EUR'', invocation_id = 1\<rparr>"

definition hotel_search :: action where
  "hotel_search =
     \<lparr>tool_name = ''Searcher'', input_arguments = ''average hotel Madrid'', invocation_id = 2\<rparr>"

definition sample_registry :: tool_registry where
  "sample_registry =
     [(''Searcher'', \<lambda>query. if query = ''50 USD in EUR'' then Inr ''45.34 EUR'' else Inl ''timeout'')]"

definition sample_model :: "string \<Rightarrow> step list \<Rightarrow> model_output" where
  "sample_model q history =
     (if history = [] then NextActions usd_search [hotel_search] else FinalAnswer ''not enough'')"

definition sample_config :: agent_config where
  "sample_config =
     \<lparr>registry = sample_registry, language_model = sample_model, max_iterations = 5\<rparr>"

text \<open>
  Modelled from the spec: the bookkeeping conditions of sections 3 and 4.4 on a run, in
  the model's terms. The stream is in order when, at every point of it, the Steps seen
  recorded are for an initial part of the Actions seen issued, in the same order. A Step
  is keyed when its Observation carries the identifier of its Action. A run is consistent
  when the Actions issued are those of its Steps followed by those of the turn still to
  be dispatched, the Steps streamed are its Steps, Actions wait for dispatch in
  DISPATCHING_TOOLS only, its stream is in order, its Steps are keyed, and it is DONE
  exactly when it holds a final answer.
\<close>

definition in_order :: "event list \<Rightarrow> bool" where
  "in_order es = (\<forall>n. prefix (map fst (recorded (take n es))) (issued (take n es)))"

definition keyed :: "step list \<Rightarrow> bool" where
  "keyed sts = list_all (\<lambda>st. for_invocation (snd st) = invocation_id (fst st)) sts"

definition consistent :: "agent_run \<Rightarrow> bool" where
  "consistent r =
     (issued (stream r) = map fst (step_sequence r) @ turn_actions r \<and>
      recorded (stream r) = step_sequence r \<and>
      (phase r \<noteq> DISPATCHING_TOOLS \<longrightarrow> turn_actions r = []) \<and>
      in_order (stream r) \<and>
      keyed (step_sequence r) \<and>
      (phase r = DONE) = (\<exists>answer. final r = Some (Success answer)))"

text \<open>
  Modelled from the spec: the chunk that carries an event of the stream is missing (the
  executor builds it). Section 6 gives the three event kinds; the keys are the ones the
  notebook's consumer tests for them, \<^verbatim>\<open>"actions"\<close> for action-issued, \<^verbatim>\<open>"steps"\<close>
  for observation-recorded and \<^verbatim>\<open>"output"\<close> for final-answer.
\<close>

definition agent_action_of :: "action \<Rightarrow> AgentAction" where
  "agent_action_of a = AgentAction (tool_name a) (input_arguments a)"

fun result_text :: "tool_result \<Rightarrow> string" where
  "result_text (Result payload) = payload"
| "result_text (Error description) = description"

fun chunk_of :: "event \<Rightarrow> chunk" where
  "chunk_of (ActionIssued a) = [''actions'' \<mapsto> Actions [agent_action_of a]]"
| "chunk_of (ObservationRecorded a obs) =
     [''steps'' \<mapsto> Steps [AgentStep (agent_action_of a) (result_text (result obs))]]"
| "chunk_of (FinalAnswerEvent answer) = [''output'' \<mapsto> Output answer]"

section \<open>Verification: notebook 08\<close>

subsection \<open>The CREATE TABLE statement lists the supported columns in order\<close>

lemma add_column_eq:
  "add_column sql c =
     sql @ (if snd c \<in> set supported_dtypes then column_declaration c @ '', '' else [])"
  by (cases c) (simp add: supported_dtypes_def column_declaration_def sql_type_def)

lemma foldl_add_column:
  "foldl add_column sql cts = sql @ concat (map (\<lambda>d. d @ '', '') (spec_declarations cts))"
proof (induction cts arbitrary: sql)
  case Nil
  show ?case by (simp add: spec_declarations_def)
next
  case (Cons c cts)
  have "foldl add_column sql (c # cts) = foldl add_column (add_column sql c) cts"
    by simp
  also have "\<dots> = add_column sql c @ concat (map (\<lambda>d. d @ '', '') (spec_declarations cts))"
    by (rule Cons.IH)
  also have "\<dots> = sql @ concat (map (\<lambda>d. d @ '', '') (spec_declarations (c # cts)))"
    by (simp add: add_column_eq spec_declarations_def)
  finally show ?case .
qed

lemma concat_join_with:
  "ds \<noteq> [] \<Longrightarrow> concat (map (\<lambda>d. d @ sep) ds) = join_with sep ds @ sep"
  by (induction sep ds rule: join_with.induct) simp_all

lemma drop_last_two_append: "length t = 2 \<Longrightarrow> drop_last_two (s @ t) = s"
  by (simp add: drop_last_two_def)

text \<open>
  Claim C10. The generated statement is \<^verbatim>\<open>CREATE TABLE covidtracking (\<close>, then the
  declarations of the columns whose dtype is object, int64, float64, bool or
  datetime64[ns] (as VARCHAR(MAX), INT, FLOAT, BIT, DATETIME), one per such column, in
  dataframe column order and separated by \<^verbatim>\<open>, \<close>, then \<^verbatim>\<open>)\<close>. A column of any other
  dtype contributes nothing. When no column has a supported dtype there is no declaration
  at all, and the slice \<^verbatim>\<open>[:-2]\<close> removes the opening \<^verbatim>\<open> (\<close> instead of a separator.
\<close>

theorem create_table_sql_declarations:
  "create_table_sql cts =
     (if spec_declarations cts = [] then ''CREATE TABLE covidtracking)''
      else ''CREATE TABLE covidtracking ('' @ join_with '', '' (spec_declarations cts) @ '')'')"
proof (cases "spec_declarations cts = []")
  case True
  then show ?thesis
    by (simp add: create_table_sql_def foldl_add_column table_name_def drop_last_two_def)
next
  case False
  have "foldl add_column (''CREATE TABLE '' @ table_name @ '' ('') cts =
      (''CREATE TABLE covidtracking ('' @ join_with '', '' (spec_declarations cts)) @ '', ''"
    by (simp add: foldl_add_column concat_join_with [OF False] table_name_def)
  then have "drop_last_two (foldl add_column (''CREATE TABLE '' @ table_name @ '' ('') cts) =
      ''CREATE TABLE covidtracking ('' @ join_with '', '' (spec_declarations cts)"
    by (simp only: drop_last_two_append [of "'', ''", simplified])
  with False show ?thesis
    by (simp add: create_table_sql_def)
qed


text \<open>
  Two statements the cell can build: one for three supported columns around a categorical
  one, and the one for a dataframe without any supported column.
\<close>

lemma create_table_sql_example:
  "create_table_sql
     [(''date'', ''object''), (''deathIncrease'', ''int64''), (''grade'', ''category''),
      (''death'', ''float64'')] =
   ''CREATE TABLE covidtracking (date VARCHAR(MAX), deathIncrease INT, death FLOAT)''"
  by (simp add: create_table_sql_def table_name_def drop_last_two_def)

lemma create_table_sql_no_column:
  "create_table_sql [(''grade'', ''category'')] = ''CREATE TABLE covidtracking)''"
  by (simp add: create_table_sql_def table_name_def drop_last_two_def)

subsection \<open>The batched insertion covers every row once\<close>

lemma insert_loop_exit:
  "limit \<le> lower \<Longrightarrow> insert_loop f df lower upper limit st = (st, None)"
  by (simp add: insert_loop.simps)

lemma block_count_gt: "1000 * k < n \<Longrightarrow> k < block_count n"
  by (simp add: block_count_def)

lemma block_count_last: "1000 * k < n \<Longrightarrow> n \<le> 1000 * (k + 1) \<Longrightarrow> block_count n = k + 1"
  by (simp add: block_count_def)

lemma block_count_le: "n \<le> 1000 * k \<Longrightarrow> block_count n \<le> k"
  by (simp add: block_count_def)

lemma block_count_ge: "block_count n \<le> k \<Longrightarrow> n \<le> 1000 * k"
  by (simp add: block_count_def)

lemma row_slice_block:
  assumes "upper = 1000 * (k + 1) \<or> (upper = length df \<and> length df \<le> 1000 * (k + 1))"
    and "1000 * k < length df"
  shows "row_slice df (1000 * k) upper = block df k"
  using assms by (auto simp: row_slice_def block_def)

lemma drop_block: "drop (1000 * k) df = block df k @ drop (1000 * (k + 1)) df"
proof -
  have "drop (1000 * (k + 1)) df = drop 1000 (drop (1000 * k) df)"
    by (simp add: algebra_simps)
  moreover have "take 1000 (drop (1000 * k) df) @ drop 1000 (drop (1000 * k) df) = drop (1000 * k) df"
    by (rule append_take_drop_id)
  ultimately show ?thesis
    by (simp only: block_def)
qed

lemma insert_loop_blocks:
  assumes "m = block_count (length df) - k"
    and "1000 * k < length df"
    and "upper = 1000 * (k + 1) \<or> (upper = length df \<and> length df \<le> 1000 * (k + 1))"
  shows "snd (insert_loop to_sql_append df (1000 * k) upper (length df) st) = None \<and>
         table_rows (fst (insert_loop to_sql_append df (1000 * k) upper (length df) st)) =
           table_rows st @ drop (1000 * k) df \<and>
         inserts (fst (insert_loop to_sql_append df (1000 * k) upper (length df) st)) =
           inserts st @ map (block df) [k..<block_count (length df)] \<and>
         printed (fst (insert_loop to_sql_append df (1000 * k) upper (length df) st)) =
           printed st @ (1000 * k, upper) #
             map (\<lambda>i. (1000 * i, min (1000 * (i + 1)) (length df)))
               [k + 1..<block_count (length df)]"
  using assms
proof (induction m arbitrary: k upper st)
  case 0
  with block_count_gt [of k "length df"] show ?case by simp
next
  case (Suc m)
  let ?n = "length df"
  let ?st = "st\<lparr>table_rows := table_rows st @ block df k,
                   inserts := inserts st @ [block df k],
                   printed := printed st @ [(1000 * k, upper)]\<rparr>"
  have slice: "row_slice df (1000 * k) upper = block df k"
    using Suc.prems(3,2) by (rule row_slice_block)
  have unfold: "insert_loop to_sql_append df (1000 * k) upper ?n st =
      insert_loop to_sql_append df upper (min (upper + 1000) ?n) ?n ?st"
    using Suc.prems(2) by (subst insert_loop.simps) (simp add: slice to_sql_append_def)
  have kc: "k < block_count ?n"
    using Suc.prems(2) by (rule block_count_gt)
  have blocks: "map (block df) [k..<block_count ?n] =
      block df k # map (block df) [k + 1..<block_count ?n]"
    using kc by (simp add: upt_conv_Cons)
  show ?case
  proof (cases "?n \<le> upper")
    case True
    then have le: "?n \<le> 1000 * (k + 1)"
      using Suc.prems(3) by auto
    have bc: "block_count ?n = k + 1"
      using Suc.prems(2) le by (rule block_count_last)
    have "drop (1000 * (k + 1)) df = []"
      using le by simp
    then have dr: "drop (1000 * k) df = block df k"
      using drop_block [of k df] by simp
    show ?thesis
      unfolding unfold insert_loop_exit [OF True]
      by (simp add: bc dr)
  next
    case False
    then have up: "upper = 1000 * (k + 1)" and lt: "1000 * (k + 1) < ?n"
      using Suc.prems(3) by auto
    have m: "m = block_count ?n - (k + 1)"
      using Suc.prems(1) by simp
    have nxt: "min (upper + 1000) ?n = 1000 * (k + 1 + 1) \<or>
        (min (upper + 1000) ?n = ?n \<and> ?n \<le> 1000 * (k + 1 + 1))"
      unfolding up by (cases "1000 * (k + 1) + 1000 \<le> ?n") (simp_all add: min_def)
    have kc': "k + 1 < block_count ?n"
      using lt by (rule block_count_gt)
    let ?st' = "st\<lparr>table_rows := table_rows st @ block df k,
                   inserts := inserts st @ [block df k],
                   printed := printed st @ [(1000 * k, 1000 * (k + 1))]\<rparr>"
    let ?r = "insert_loop to_sql_append df (1000 * (k + 1)) (min (1000 * (k + 1) + 1000) ?n) ?n ?st'"
    have bounds: "map (\<lambda>i. (1000 * i, min (1000 * (i + 1)) ?n)) [k + 1..<block_count ?n] =
        (1000 * (k + 1), min (1000 * (k + 1) + 1000) ?n) #
        map (\<lambda>i. (1000 * i, min (1000 * (i + 1)) ?n)) [k + 1 + 1..<block_count ?n]"
      using kc' by (simp add: upt_conv_Cons)
    have rest: "block df k @ drop (1000 * (k + 1)) df = drop (1000 * k) df"
      by (rule drop_block [symmetric])
    note IH = Suc.IH [OF m lt nxt [unfolded up], of ?st']
    have a: "snd ?r = None"
      using IH by simp
    have b: "table_rows (fst ?r) = table_rows st @ block df k @ drop (1000 * (k + 1)) df"
      using IH by simp
    have c: "inserts (fst ?r) = inserts st @ block df k # map (block df) [k + 1..<block_count ?n]"
      using IH by simp
    have d: "printed (fst ?r) = printed st @ (1000 * k, 1000 * (k + 1)) #
        (1000 * (k + 1), min (1000 * (k + 1) + 1000) ?n) #
        map (\<lambda>i. (1000 * i, min (1000 * (i + 1)) ?n)) [k + 1 + 1..<block_count ?n]"
      using IH by simp
    show ?thesis
      unfolding unfold
      unfolding up
    proof (intro conjI)
      show "snd ?r = None" by (rule a)
      show "table_rows (fst ?r) = table_rows st @ drop (1000 * k) df"
        by (simp only: b rest)
      show "inserts (fst ?r) = inserts st @ map (block df) [k..<block_count ?n]"
        by (simp only: c blocks)
      show "printed (fst ?r) = printed st @ (1000 * k, 1000 * (k + 1)) #
          map (\<lambda>i. (1000 * i, min (1000 * (i + 1)) ?n)) [k + 1..<block_count ?n]"
        by (simp only: d bounds)
    qed
  qed
qed

lemma concat_blocks_from:
  "m = block_count (length df) - k \<Longrightarrow>
     concat (map (block df) [k..<block_count (length df)]) = drop (1000 * k) df"
proof (induction m arbitrary: k)
  case 0
  then have "block_count (length df) \<le> k" by simp
  then have "length df \<le> 1000 * k" by (rule block_count_ge)
  with \<open>block_count (length df) \<le> k\<close> show ?case by simp
next
  case (Suc m)
  then have kc: "k < block_count (length df)" and m: "m = block_count (length df) - (k + 1)"
    by simp_all
  have "concat (map (block df) [k..<block_count (length df)]) =
      block df k @ concat (map (block df) [k + 1..<block_count (length df)])"
    using kc by (simp add: upt_conv_Cons)
  also have "\<dots> = block df k @ drop (1000 * (k + 1)) df"
    by (simp only: Suc.IH [OF m])
  also have "\<dots> = drop (1000 * k) df"
    by (rule drop_block [symmetric])
  finally show ?case .
qed

lemma concat_blocks: "concat (map (block df) [0..<block_count (length df)]) = df"
  using concat_blocks_from [OF refl, of df 0] by simp

lemma block_row_slice:
  "block df i = row_slice df (1000 * i) (min (1000 * (i + 1)) (length df))"
proof (cases "1000 * (i + 1) \<le> length df")
  case True
  then show ?thesis
    by (simp add: block_def row_slice_def min_def)
next
  case False
  then have "min (1000 * (i + 1)) (length df) = length df"
    by simp
  moreover have "length (drop (1000 * i) df) \<le> 1000"
    using False by simp
  ultimately show ?thesis
    by (simp add: block_def row_slice_def)
qed

lemma blocks_row_slices:
  "map (block df) ks =
     map (\<lambda>i. row_slice df (1000 * i) (min (1000 * (i + 1)) (length df))) ks"
  by (rule map_cong [OF refl]) (rule block_row_slice)

text \<open>
  Claim C9. For a dataframe of \<open>n \<ge> 0\<close> rows and a database that accepts every batch,
  the loop returns (it is a total function, by the termination proof of \<open>insert_loop\<close>)
  without an error; the \<^verbatim>\<open>to_sql\<close> calls it makes carry the consecutive blocks of rows,
  which are the slices \<open>[0,1000)\<close>, \<open>[1000,2000)\<close>, ..., the last one ending at row
  \<open>n\<close>; their concatenation is the dataframe, so the table grows by exactly the rows of
  the dataframe, each once and in order; and no call is made exactly when \<open>n = 0\<close>.
\<close>

theorem load_rows_inserts_each_row_once:
  "snd (load_rows to_sql_append df tbl) = None \<and>
   table_rows (fst (load_rows to_sql_append df tbl)) = tbl @ df \<and>
   inserts (fst (load_rows to_sql_append df tbl)) = map (block df) [0..<block_count (length df)] \<and>
   map (block df) [0..<block_count (length df)] =
     map (\<lambda>i. row_slice df (1000 * i) (min (1000 * (i + 1)) (length df)))
       [0..<block_count (length df)] \<and>
   concat (inserts (fst (load_rows to_sql_append df tbl))) = df \<and>
   (inserts (fst (load_rows to_sql_append df tbl)) = []) = (df = [])"
proof (cases "df = []")
  case True
  then show ?thesis
    by (simp add: load_rows_def insert_loop_exit block_count_def)
next
  case False
  then have pos: "1000 * 0 < length df" by simp
  have bc: "0 < block_count (length df)"
    using pos by (rule block_count_gt)
  from insert_loop_blocks [OF refl pos, of 1000 "\<lparr>table_rows = tbl, inserts = [], printed = []\<rparr>"]
  have t: "snd (load_rows to_sql_append df tbl) = None"
    and u: "table_rows (fst (load_rows to_sql_append df tbl)) = tbl @ df"
    and v: "inserts (fst (load_rows to_sql_append df tbl)) = map (block df) [0..<block_count (length df)]"
    by (simp_all add: load_rows_def)
  have w: "map (block df) [0..<block_count (length df)] =
      map (\<lambda>i. row_slice df (1000 * i) (min (1000 * (i + 1)) (length df)))
        [0..<block_count (length df)]"
    by (rule blocks_row_slices)
  have x: "concat (inserts (fst (load_rows to_sql_append df tbl))) = df"
    by (simp only: v concat_blocks)
  have y: "(inserts (fst (load_rows to_sql_append df tbl)) = []) = (df = [])"
    using bc False by (simp add: v)
  show ?thesis
    using t u v w x y by blast
qed


text \<open>
  The bounds the loop prints. The first pair is always \<open>(0, 1000)\<close>, also for a dataframe
  shorter than 1000 rows, where the slice is cut at the end of the frame; every later
  upper bound is capped at \<open>n\<close>.
\<close>

lemma load_rows_printed:
  "printed (fst (load_rows to_sql_append df tbl)) =
     (if df = [] then []
      else (0, 1000) # map (\<lambda>i. (1000 * i, min (1000 * (i + 1)) (length df)))
             [1..<block_count (length df)])"
proof (cases "df = []")
  case True
  then show ?thesis
    by (simp add: load_rows_def insert_loop_exit)
next
  case False
  then have pos: "1000 * 0 < length df" by simp
  from insert_loop_blocks [OF refl pos, of 1000 "\<lparr>table_rows = tbl, inserts = [], printed = []\<rparr>"]
  show ?thesis
    using False by (simp add: load_rows_def)
qed


text \<open>A dataframe of three rows goes in with one call, printed as \<open>0 - 1000\<close>.\<close>

lemma load_rows_example:
  "load_rows to_sql_append [r1, r2, r3] [r0] =
     (\<lparr>table_rows = [r0, r1, r2, r3], inserts = [[r1, r2, r3]], printed = [(0, 1000)]\<rparr>, None)"
  by (simp add: load_rows_def insert_loop.simps to_sql_append_def row_slice_def)

section \<open>Verification: notebook 09\<close>

subsection \<open>The two execution paths of the Bing search tool agree\<close>

text \<open>
  Claim C7. For every query, \<^verbatim>\<open>_arun\<close> gives what \<^verbatim>\<open>_run\<close> gives: both are the call
  \<^verbatim>\<open>results(query, k)\<close> on a wrapper built with the same \<open>k\<close>, the tool's own; the
  asynchronous path only hands the same call to an executor and awaits it. This holds for
  whatever the web request returns or raises.
\<close>

theorem MyBingSearch_arun_eq_run:
  "MyBingSearch_arun results self query = MyBingSearch_run results self query \<and>
   MyBingSearch_run results self query = results \<lparr>wrapper_k = tool_k self\<rparr> query (tool_k self)"
  by (simp add: MyBingSearch_arun_def MyBingSearch_run_def run_in_executor_def)

subsection \<open>The stream consumer and the three event kinds\<close>

lemma one_event_kind_some:
  "one_event_kind chunk \<Longrightarrow>
     chunk ''actions'' \<noteq> None \<or> chunk ''steps'' \<noteq> None \<or> chunk ''output'' \<noteq> None"
  by (auto simp: one_event_kind_def event_keys_def split: if_splits)

text \<open>
  Claim C6. When every chunk the streaming interface delivers is exactly one of the three
  event kinds, that is, holds exactly one of the keys \<^verbatim>\<open>"actions"\<close>, \<^verbatim>\<open>"steps"\<close>,
  \<^verbatim>\<open>"output"\<close> (beside any other keys), the consumer never reaches its
  \<^verbatim>\<open>raise ValueError()\<close> branch, whatever it had printed before.
\<close>

theorem stream_consumer_no_ValueError:
  "\<forall>chunk \<in> set chunks. one_event_kind chunk \<Longrightarrow>
     snd (stream_consumer chunks out) \<noteq> Some ValueError"
proof (induction chunks arbitrary: out)
  case Nil
  show ?case by simp
next
  case (Cons chunk rest)
  then have "one_event_kind chunk"
    by simp
  then have some: "chunk ''actions'' \<noteq> None \<or> chunk ''steps'' \<noteq> None \<or> chunk ''output'' \<noteq> None"
    by (rule one_event_kind_some)
  have rest: "snd (stream_consumer rest out') \<noteq> Some ValueError" for out'
    using Cons by simp
  show ?case
    using some rest by (auto split: option.splits chunk_value.splits)
qed

theorem stream_consumer_no_ValueError_witness:
  "one_event_kind action_chunk \<and> one_event_kind step_chunk \<and> one_event_kind output_chunk \<and>
   stream_consumer [action_chunk, step_chunk, output_chunk] [] =
     ([''Calling Tool: `Searcher` with input `50 USD in EUR`'', ''---''], None) \<and>
   snd (stream_consumer [action_chunk, step_chunk, output_chunk] []) \<noteq> Some ValueError"
proof -
  have k: "one_event_kind action_chunk" "one_event_kind step_chunk" "one_event_kind output_chunk"
    by (simp_all add: one_event_kind_def event_keys_def action_chunk_def step_chunk_def
        output_chunk_def)
  then have "\<forall>chunk \<in> set [action_chunk, step_chunk, output_chunk]. one_event_kind chunk"
    by simp
  from stream_consumer_no_ValueError [OF this, of "[]"] k show ?thesis
    by (simp add: action_chunk_def step_chunk_def output_chunk_def calling_line_def)
qed

text \<open>
  The branch is there for the other chunks only: a ValueError means that some chunk held
  none of the three keys, and such a chunk does raise it.
\<close>

lemma stream_consumer_ValueError_only_without_key:
  "snd (stream_consumer chunks out) = Some ValueError \<Longrightarrow>
     \<exists>chunk \<in> set chunks. chunk ''actions'' = None \<and> chunk ''steps'' = None \<and> chunk ''output'' = None"
  by (induction chunks arbitrary: out) (auto split: option.splits chunk_value.splits if_splits)

lemma stream_consumer_other_chunk_raises:
  "\<not> one_event_kind message_chunk \<and>
   stream_consumer [action_chunk, message_chunk, output_chunk] [] =
     ([''Calling Tool: `Searcher` with input `50 USD in EUR`'', ''---''], Some ValueError)"
  by (simp add: one_event_kind_def event_keys_def action_chunk_def message_chunk_def
      output_chunk_def calling_line_def)

text \<open>
  With well-typed \<^verbatim>\<open>"actions"\<close> values beside, the consumer reads the whole stream
  without any error.
\<close>

lemma stream_consumer_completes:
  "\<forall>chunk \<in> set chunks. one_event_kind chunk \<and> actions_typed chunk \<Longrightarrow>
     snd (stream_consumer chunks out) = None"
proof (induction chunks arbitrary: out)
  case Nil
  show ?case by simp
next
  case (Cons chunk rest)
  then have kind: "one_event_kind chunk" and typed: "actions_typed chunk"
    by simp_all
  have some: "chunk ''actions'' \<noteq> None \<or> chunk ''steps'' \<noteq> None \<or> chunk ''output'' \<noteq> None"
    using kind by (rule one_event_kind_some)
  have rest: "snd (stream_consumer rest out') = None" for out'
    using Cons by simp
  show ?case
    using some rest typed
    by (auto simp: actions_typed_def split: option.splits chunk_value.splits)
qed

subsection \<open>What the blocking invoke cell leaves to the caller\<close>

text \<open>
  Claim C8, as the code has it. When \<^verbatim>\<open>invoke\<close> returns, the caller holds the response
  dict: the final answer with the full step trail. When it raises an exception of class
  \<^verbatim>\<open>Exception\<close>, the handler keeps \<^verbatim>\<open>str(e)\<close> alone: a plain string, with no step
  trail. An exception that is not of class \<^verbatim>\<open>Exception\<close> leaves the cell.
\<close>

theorem invoke_cell_response:
  "(case invoke q of
      Returned r \<Rightarrow>
        invoke_cell invoke q = Inr (Dict r) \<and>
        step_trail (Dict r) = Some (accumulated_steps (invoke q))
    | Raised (Exception msg) trail \<Rightarrow>
        invoke_cell invoke q = Inr (Str msg) \<and> step_trail (Str msg) = None
    | Raised (BaseException msg) trail \<Rightarrow>
        invoke_cell invoke q = Inl (BaseException msg))"
  by (simp split: run_result.split raised.split)

text \<open>
  Claim C8, as stated, fails: a run that recorded one step and then raised leaves the
  caller the message \<^verbatim>\<open>HTTPError: 503\<close> and nothing of the step.
\<close>

theorem invoke_cell_drops_trail:
  "invoke_cell failing_invoke ''How much is 50 USD in Euros?'' = Inr (Str ''HTTPError: 503'') \<and>
   step_trail (Str ''HTTPError: 503'') = None \<and>
   accumulated_steps (failing_invoke ''How much is 50 USD in Euros?'') = [recorded_step] \<and>
   \<not> answer_or_error_with_trail failing_invoke ''How much is 50 USD in Euros?''"
  by (simp add: failing_invoke_def answer_or_error_with_trail_def)

text \<open>The caller holds the accumulated steps exactly when \<^verbatim>\<open>invoke\<close> returned.\<close>

lemma answer_or_error_with_trail_iff:
  "answer_or_error_with_trail invoke q = (\<exists>r. invoke q = Returned r)"
  by (simp add: answer_or_error_with_trail_def split: run_result.split raised.split)


section \<open>Verification: the agent loop of the specification\<close>

subsection \<open>Events and Steps of a run stay consistent\<close>

lemma issued_append: "issued (es @ es') = issued es @ issued es'"
  by (induction es rule: issued.induct) simp_all

lemma recorded_append: "recorded (es @ es') = recorded es @ recorded es'"
  by (induction es rule: recorded.induct) simp_all

lemma issued_ActionIssued: "issued (map ActionIssued acts) = acts"
  by (induction acts) simp_all

lemma recorded_ActionIssued: "recorded (map ActionIssued acts) = []"
  by (induction acts) simp_all

lemma recorded_take_ActionIssued: "recorded (take n (map ActionIssued acts)) = []"
  by (metis recorded_ActionIssued take_map)

lemma in_order_Nil: "in_order []"
  by (simp add: in_order_def)

lemma in_order_issue:
  assumes "in_order es"
  shows "in_order (es @ map ActionIssued acts)"
  unfolding in_order_def
proof
  fix n
  have "prefix (map fst (recorded (take n es))) (issued (take n es))"
    using assms by (simp add: in_order_def)
  then show "prefix (map fst (recorded (take n (es @ map ActionIssued acts))))
      (issued (take n (es @ map ActionIssued acts)))"
    by (simp add: recorded_append issued_append recorded_take_ActionIssued)
qed

lemma in_order_issue_turn:
  "in_order es \<Longrightarrow> in_order (es @ ActionIssued a # map ActionIssued acts)"
  using in_order_issue [of es "a # acts"] by simp

lemma in_order_answer:
  assumes "in_order es"
  shows "in_order (es @ [FinalAnswerEvent answer])"
  unfolding in_order_def
proof
  fix n
  have p: "prefix (map fst (recorded (take n es))) (issued (take n es))"
    using assms by (simp add: in_order_def)
  show "prefix (map fst (recorded (take n (es @ [FinalAnswerEvent answer]))))
      (issued (take n (es @ [FinalAnswerEvent answer])))"
  proof (cases "n \<le> length es")
    case True
    with p show ?thesis by simp
  next
    case False
    then have "take n (es @ [FinalAnswerEvent answer]) = es @ [FinalAnswerEvent answer]"
      and "take n es = es"
      by simp_all
    with p show ?thesis by (simp add: recorded_append issued_append)
  qed
qed

lemma in_order_record:
  assumes "in_order es"
    and "issued es = map fst (recorded es) @ a # rest"
  shows "in_order (es @ [ObservationRecorded a obs])"
  unfolding in_order_def
proof
  fix n
  have p: "prefix (map fst (recorded (take n es))) (issued (take n es))"
    using assms(1) by (simp add: in_order_def)
  show "prefix (map fst (recorded (take n (es @ [ObservationRecorded a obs]))))
      (issued (take n (es @ [ObservationRecorded a obs])))"
  proof (cases "n \<le> length es")
    case True
    with p show ?thesis by simp
  next
    case False
    then have "take n (es @ [ObservationRecorded a obs]) = es @ [ObservationRecorded a obs]"
      by simp
    then show ?thesis
      by (simp add: recorded_append issued_append assms(2))
  qed
qed

text \<open>Every transition keeps a run consistent, so every run the loop reaches is.\<close>

lemma consistent_start: "consistent (start q)"
  by (simp add: consistent_def start_def in_order_Nil keyed_def)

lemma consistent_step:
  assumes "consistent r"
  shows "consistent (agent_step cfg r)"
proof (cases "phase r")
  case STARTED
  with assms show ?thesis
    by (simp add: agent_step_def consistent_def)
next
  case AWAITING_MODEL
  with assms have c: "issued (stream r) = map fst (step_sequence r)"
    "recorded (stream r) = step_sequence r" "turn_actions r = []" "in_order (stream r)"
    "keyed (step_sequence r)" "\<forall>answer. final r \<noteq> Some (Success answer)"
    by (simp_all add: consistent_def)
  show ?thesis
    using AWAITING_MODEL c
    by (simp add: agent_step_def consistent_def issued_append recorded_append
        issued_ActionIssued recorded_ActionIssued in_order_issue_turn in_order_answer
        split: model_output.split)
next
  case DISPATCHING_TOOLS
  with assms have c: "issued (stream r) = map fst (step_sequence r) @ turn_actions r"
    "recorded (stream r) = step_sequence r" "in_order (stream r)" "keyed (step_sequence r)"
    "\<forall>answer. final r \<noteq> Some (Success answer)"
    by (simp_all add: consistent_def)
  show ?thesis
  proof (cases "turn_actions r")
    case Nil
    with DISPATCHING_TOOLS c show ?thesis
      by (simp add: agent_step_def consistent_def)
  next
    case (Cons a rest)
    have "in_order (stream r @ [ObservationRecorded a (dispatch (registry cfg) a)])"
      using c(3) by (rule in_order_record) (simp add: c Cons)
    with DISPATCHING_TOOLS c Cons show ?thesis
      by (simp add: agent_step_def consistent_def issued_append recorded_append keyed_def
          dispatch_def)
  qed
next
  case DONE
  with assms show ?thesis by (simp add: agent_step_def)
next
  case FAILED
  with assms show ?thesis by (simp add: agent_step_def)
qed

lemma consistent_run: "consistent r \<Longrightarrow> consistent (run cfg r)"
proof (induction cfg r rule: run.induct)
  case (1 cfg r)
  show ?case
  proof (cases "phase r = DONE \<or> phase r = FAILED")
    case True
    with "1.prems" show ?thesis by (simp add: run.simps)
  next
    case False
    then have "run cfg r = run cfg (agent_step cfg r)"
      by (subst run.simps) simp
    with "1.IH" [OF False] "1.prems" show ?thesis
      by (simp add: consistent_step)
  qed
qed

lemma consistent_funpow: "consistent r \<Longrightarrow> consistent ((agent_step cfg ^^ n) r)"
  by (induction n) (simp_all add: consistent_step)

text \<open>
  The loop returns for every configuration and question (\<open>run\<close> is total: each
  transition uses up an iteration of the configured maximum, leaves a state of higher
  rank, or dispatches one of the turn's Actions), in a final state, after finitely many
  transitions.
\<close>

lemma run_funpow: "\<exists>n. run cfg r = (agent_step cfg ^^ n) r"
proof (induction cfg r rule: run.induct)
  case (1 cfg r)
  show ?case
  proof (cases "phase r = DONE \<or> phase r = FAILED")
    case True
    then have "run cfg r = (agent_step cfg ^^ 0) r"
      by (simp add: run.simps)
    then show ?thesis ..
  next
    case False
    then have eq: "run cfg r = run cfg (agent_step cfg r)"
      by (subst run.simps) simp
    from "1.IH" [OF False] obtain n where "run cfg (agent_step cfg r) = (agent_step cfg ^^ n) (agent_step cfg r)" ..
    with eq have "run cfg r = (agent_step cfg ^^ Suc n) r"
      by (simp add: funpow_swap1)
    then show ?thesis ..
  qed
qed

lemma run_final: "phase (run cfg r) = DONE \<or> phase (run cfg r) = FAILED"
proof (induction cfg r rule: run.induct)
  case (1 cfg r)
  show ?case
  proof (cases "phase r = DONE \<or> phase r = FAILED")
    case True
    then show ?thesis by (simp add: run.simps)
  next
    case False
    then have "run cfg r = run cfg (agent_step cfg r)"
      by (subst run.simps) simp
    with "1.IH" [OF False] show ?thesis by simp
  qed
qed

text \<open>The Step sequence and the stream only grow at their ends.\<close>

lemma step_sequence_step: "prefix (step_sequence r) (step_sequence (agent_step cfg r))"
  by (simp add: agent_step_def split: agent_state.split model_output.split list.split)

lemma stream_step: "prefix (stream r) (stream (agent_step cfg r))"
  by (simp add: agent_step_def split: agent_state.split model_output.split list.split)

lemma step_sequence_run: "prefix (step_sequence r) (step_sequence (run cfg r))"
proof (induction cfg r rule: run.induct)
  case (1 cfg r)
  show ?case
  proof (cases "phase r = DONE \<or> phase r = FAILED")
    case True
    then show ?thesis by (simp add: run.simps)
  next
    case False
    then have "run cfg r = run cfg (agent_step cfg r)"
      by (subst run.simps) simp
    with "1.IH" [OF False] step_sequence_step [of r cfg] show ?thesis
      by (auto intro: prefix_order.trans)
  qed
qed


subsection \<open>Streaming order\<close>

lemma issued_nth: "a \<in> set (issued es) \<Longrightarrow> \<exists>j < length es. es ! j = ActionIssued a"
proof (induction es)
  case Nil
  then show ?case by simp
next
  case (Cons e es)
  show ?case
  proof (cases "e = ActionIssued a")
    case True
    then have "0 < length (e # es) \<and> (e # es) ! 0 = ActionIssued a"
      by simp
    then show ?thesis by blast
  next
    case False
    with Cons.prems have "a \<in> set (issued es)"
      by (cases e) auto
    with Cons.IH obtain j where "j < length es" "es ! j = ActionIssued a"
      by auto
    then have "Suc j < length (e # es) \<and> (e # es) ! Suc j = ActionIssued a"
      by simp
    then show ?thesis by blast
  qed
qed

lemma in_order_nth:
  assumes "in_order es" and "i < length es" and "es ! i = ObservationRecorded a obs"
  shows "\<exists>j < i. es ! j = ActionIssued a"
proof -
  have t: "take (Suc i) es = take i es @ [ObservationRecorded a obs]"
    using assms(2,3) by (simp add: take_Suc_conv_app_nth)
  have "prefix (map fst (recorded (take (Suc i) es))) (issued (take (Suc i) es))"
    using assms(1) by (simp add: in_order_def)
  then have "set (map fst (recorded (take (Suc i) es))) \<subseteq> set (issued (take (Suc i) es))"
    by (rule set_mono_prefix)
  then have "a \<in> set (issued (take i es))"
    by (simp add: t recorded_append issued_append)
  then obtain j where j: "j < length (take i es)" "take i es ! j = ActionIssued a"
    using issued_nth by blast
  then have "j < i \<and> es ! j = ActionIssued a"
    by simp
  then show ?thesis by blast
qed

text \<open>
  Claim C5. In the stream of a run, for every configuration and question, and at every
  point up to which a consumer may have read it, the observation-recorded events seen are
  for an initial part of the Actions seen issued, in the same order; so every
  observation-recorded event for an Action comes strictly after an action-issued event
  for that Action.
\<close>

theorem action_issued_before_observation_recorded:
  "(\<forall>n. prefix (map fst (recorded (take n (stream (run cfg (start q))))))
          (issued (take n (stream (run cfg (start q)))))) \<and>
   (\<forall>i a obs. i < length (stream (run cfg (start q))) \<and>
        stream (run cfg (start q)) ! i = ObservationRecorded a obs \<longrightarrow>
        (\<exists>j < i. stream (run cfg (start q)) ! j = ActionIssued a))"
proof -
  have "consistent (run cfg (start q))"
    by (simp add: consistent_run consistent_start)
  then have ord: "in_order (stream (run cfg (start q)))"
    by (simp add: consistent_def)
  then show ?thesis
    using in_order_nth [OF ord] by (auto simp: in_order_def)
qed

text \<open>The sample run, evaluated.\<close>

lemma sample_run:
  "run sample_config (start q) =
     \<lparr>phase = DONE, question = q,
      step_sequence =
        [(usd_search, \<lparr>for_invocation = 1, result = Result ''45.34 EUR''\<rparr>),
         (hotel_search, \<lparr>for_invocation = 2, result = Error ''timeout''\<rparr>)],
      turn_actions = [], iterations = 2,
      stream =
        [ActionIssued usd_search, ActionIssued hotel_search,
         ObservationRecorded usd_search \<lparr>for_invocation = 1, result = Result ''45.34 EUR''\<rparr>,
         ObservationRecorded hotel_search \<lparr>for_invocation = 2, result = Error ''timeout''\<rparr>,
         FinalAnswerEvent ''not enough''],
      final = Some (Success ''not enough'')\<rparr>"
  by (simp add: run.simps agent_step_def start_def sample_config_def sample_model_def
      sample_registry_def dispatch_def usd_search_def hotel_search_def)

theorem action_issued_before_observation_recorded_witness:
  "3 < length (stream (run sample_config (start ''How much is 50 USD in Euros?''))) \<and>
   stream (run sample_config (start ''How much is 50 USD in Euros?'')) ! 3 =
     ObservationRecorded hotel_search \<lparr>for_invocation = 2, result = Error ''timeout''\<rparr> \<and>
   (\<exists>j < 3. stream (run sample_config (start ''How much is 50 USD in Euros?'')) ! j =
      ActionIssued hotel_search)"
proof -
  let ?es = "stream (run sample_config (start ''How much is 50 USD in Euros?''))"
  have h: "3 < length ?es \<and>
      ?es ! 3 = ObservationRecorded hotel_search \<lparr>for_invocation = 2, result = Error ''timeout''\<rparr>"
    by (simp add: sample_run)
  from action_issued_before_observation_recorded
    [of sample_config "''How much is 50 USD in Euros?''"]
  have "3 < length ?es \<and>
      ?es ! 3 = ObservationRecorded hotel_search \<lparr>for_invocation = 2, result = Error ''timeout''\<rparr> \<longrightarrow>
      (\<exists>j < 3. ?es ! j = ActionIssued hotel_search)"
    by blast
  with h show ?thesis by blast
qed


subsection \<open>The Step sequence of a finalized run\<close>

lemma agent_step_final: "phase r = DONE \<or> phase r = FAILED \<Longrightarrow> agent_step cfg r = r"
  by (auto simp: agent_step_def)

lemma funpow_final:
  "phase r = DONE \<or> phase r = FAILED \<Longrightarrow> (agent_step cfg ^^ k) r = r"
  by (induction k) (simp_all add: agent_step_final)

lemma step_sequence_funpow:
  "prefix (step_sequence ((agent_step cfg ^^ n) r)) (step_sequence ((agent_step cfg ^^ (n + k)) r))"
proof (induction k)
  case 0
  show ?case by simp
next
  case (Suc k)
  have "prefix (step_sequence ((agent_step cfg ^^ (n + k)) r))
      (step_sequence (agent_step cfg ((agent_step cfg ^^ (n + k)) r)))"
    by (rule step_sequence_step)
  with Suc show ?case
    by (auto intro: prefix_order.trans)
qed

lemma step_sequence_funpow_run:
  "prefix (step_sequence ((agent_step cfg ^^ n) r)) (step_sequence (run cfg r))"
proof -
  obtain m where m: "run cfg r = (agent_step cfg ^^ m) r"
    using run_funpow by blast
  show ?thesis
  proof (cases "n \<le> m")
    case True
    then obtain k where "m = n + k"
      using le_Suc_ex by blast
    with m step_sequence_funpow [where cfg = cfg and n = n and r = r and k = k] show ?thesis by simp
  next
    case False
    then obtain k where k: "n = m + k"
      using le_Suc_ex [of m n] by auto
    have "phase ((agent_step cfg ^^ m) r) = DONE \<or> phase ((agent_step cfg ^^ m) r) = FAILED"
      using run_final [of cfg r] by (simp add: m)
    then have "(agent_step cfg ^^ k) ((agent_step cfg ^^ m) r) = (agent_step cfg ^^ m) r"
      by (rule funpow_final)
    then have "(agent_step cfg ^^ n) r = run cfg r"
      by (simp add: k m funpow_add add.commute)
    then show ?thesis by simp
  qed
qed

lemma keyed_map:
  "keyed sts \<Longrightarrow> map (for_invocation \<circ> snd) sts = map (invocation_id \<circ> fst) sts"
  by (induction sts) (simp_all add: keyed_def)

text \<open>
  Claim C1. When a run finalizes with a success outcome, it is DONE with no Action left
  to dispatch; the Actions of its Steps are the Actions issued, in issuance order; the
  Observations of its Steps carry, position by position, the invocation identifiers of
  the Actions issued, so each issued Action has exactly one Observation; the Steps
  streamed as recorded are its Steps; and along the run the Step sequence after a
  transition extends the one before it, up to the final one: no Step is reordered or
  deleted once appended.
\<close>

theorem finalized_run_pairs_every_action:
  assumes "final (run cfg (start q)) = Some (Success answer)"
  shows "phase (run cfg (start q)) = DONE \<and>
    turn_actions (run cfg (start q)) = [] \<and>
    map fst (step_sequence (run cfg (start q))) = issued (stream (run cfg (start q))) \<and>
    map (for_invocation \<circ> snd) (step_sequence (run cfg (start q))) =
      map invocation_id (issued (stream (run cfg (start q)))) \<and>
    recorded (stream (run cfg (start q))) = step_sequence (run cfg (start q)) \<and>
    (\<forall>n. prefix (step_sequence ((agent_step cfg ^^ n) (start q)))
            (step_sequence ((agent_step cfg ^^ Suc n) (start q))) \<and>
         prefix (step_sequence ((agent_step cfg ^^ n) (start q)))
            (step_sequence (run cfg (start q))))"
proof -
  let ?R = "run cfg (start q)"
  have c: "consistent ?R"
    by (simp add: consistent_run consistent_start)
  have "phase ?R \<noteq> DISPATCHING_TOOLS"
    using run_final [of cfg "start q"] by auto
  with c have none: "turn_actions ?R = []"
    by (simp add: consistent_def)
  with c have iss: "issued (stream ?R) = map fst (step_sequence ?R)"
    and rcd: "recorded (stream ?R) = step_sequence ?R"
    and key: "keyed (step_sequence ?R)"
    by (simp_all add: consistent_def)
  have fin: "phase ?R = DONE"
    using c assms by (simp add: consistent_def)
  have ids: "map (for_invocation \<circ> snd) (step_sequence ?R) = map invocation_id (issued (stream ?R))"
    by (simp add: iss keyed_map [OF key])
  have chain: "prefix (step_sequence ((agent_step cfg ^^ n) (start q)))
      (step_sequence ((agent_step cfg ^^ Suc n) (start q)))" for n
    by (simp add: step_sequence_step)
  show ?thesis
    using fin none iss ids rcd chain step_sequence_funpow_run by simp
qed

theorem finalized_run_pairs_every_action_witness:
  "final (run sample_config (start ''How much is 50 USD in Euros?'')) = Some (Success ''not enough'') \<and>
   phase (run sample_config (start ''How much is 50 USD in Euros?'')) = DONE \<and>
   map fst (step_sequence (run sample_config (start ''How much is 50 USD in Euros?''))) =
     [usd_search, hotel_search] \<and>
   issued (stream (run sample_config (start ''How much is 50 USD in Euros?''))) =
     [usd_search, hotel_search] \<and>
   map (for_invocation \<circ> snd) (step_sequence (run sample_config (start ''How much is 50 USD in Euros?''))) =
     map invocation_id (issued (stream (run sample_config (start ''How much is 50 USD in Euros?''))))"
proof -
  have h: "final (run sample_config (start ''How much is 50 USD in Euros?'')) = Some (Success ''not enough'')"
    by (simp add: sample_run)
  from finalized_run_pairs_every_action [OF h] show ?thesis
    by (simp add: sample_run)
qed


subsection \<open>A turn is dispatched completely before the model is queried again\<close>

lemma dispatch_funpow:
  "phase s = DISPATCHING_TOOLS \<Longrightarrow> k \<le> length (turn_actions s) \<Longrightarrow>
     phase ((agent_step cfg ^^ k) s) = DISPATCHING_TOOLS \<and>
     iterations ((agent_step cfg ^^ k) s) = iterations s \<and>
     step_sequence ((agent_step cfg ^^ k) s) =
       step_sequence s @ map (\<lambda>x. (x, dispatch (registry cfg) x)) (take k (turn_actions s)) \<and>
     turn_actions ((agent_step cfg ^^ k) s) = drop k (turn_actions s)"
proof (induction k arbitrary: s)
  case 0
  then show ?case by simp
next
  case (Suc k)
  then obtain a rest where ar: "turn_actions s = a # rest"
    by (cases "turn_actions s") auto
  let ?s = "agent_step cfg s"
  have s': "phase ?s = DISPATCHING_TOOLS" "iterations ?s = iterations s"
    "step_sequence ?s = step_sequence s @ [(a, dispatch (registry cfg) a)]"
    "turn_actions ?s = rest"
    using Suc.prems(1) ar by (simp_all add: agent_step_def)
  have "k \<le> length (turn_actions ?s)"
    using Suc.prems(2) ar s' by simp
  from Suc.IH [OF s'(1) this] show ?case
    by (simp add: funpow_swap1 s' ar)
qed

text \<open>
  Claim C4. Whenever a run is in AWAITING_MODEL, where alone the model is invoked, no
  Action waits for dispatch and every Action issued so far has its Step. And when the
  model, invoked in AWAITING_MODEL with iterations left, returns \<open>N\<close> Actions, the next
  \<open>N + 1\<close> states are in DISPATCHING_TOOLS with the iteration count of that invocation,
  the \<open>k\<close>-th of them holding the Observations of the first \<open>k\<close> Actions of the turn; the
  state after them is AWAITING_MODEL again, with all \<open>N\<close> Observations appended in
  issuance order and no model invocation in between.
\<close>

theorem turn_completes_before_next_model_invocation:
  "(\<forall>n. phase ((agent_step cfg ^^ n) (start q)) = AWAITING_MODEL \<longrightarrow>
        turn_actions ((agent_step cfg ^^ n) (start q)) = [] \<and>
        map fst (step_sequence ((agent_step cfg ^^ n) (start q))) =
          issued (stream ((agent_step cfg ^^ n) (start q)))) \<and>
   (phase r = AWAITING_MODEL \<and> iterations r < max_iterations cfg \<and>
    language_model cfg (question r) (step_sequence r) = NextActions a acts \<longrightarrow>
      (\<forall>k \<le> length (a # acts).
         phase ((agent_step cfg ^^ Suc k) r) = DISPATCHING_TOOLS \<and>
         iterations ((agent_step cfg ^^ Suc k) r) = iterations r + 1 \<and>
         step_sequence ((agent_step cfg ^^ Suc k) r) =
           step_sequence r @ map (\<lambda>x. (x, dispatch (registry cfg) x)) (take k (a # acts))) \<and>
      phase ((agent_step cfg ^^ (length (a # acts) + 2)) r) = AWAITING_MODEL \<and>
      iterations ((agent_step cfg ^^ (length (a # acts) + 2)) r) = iterations r + 1 \<and>
      step_sequence ((agent_step cfg ^^ (length (a # acts) + 2)) r) =
        step_sequence r @ map (\<lambda>x. (x, dispatch (registry cfg) x)) (a # acts))"
proof (intro conjI allI impI)
  fix n
  assume aw: "phase ((agent_step cfg ^^ n) (start q)) = AWAITING_MODEL"
  have "consistent ((agent_step cfg ^^ n) (start q))"
    by (simp add: consistent_funpow consistent_start)
  with aw show "turn_actions ((agent_step cfg ^^ n) (start q)) = []"
    and "map fst (step_sequence ((agent_step cfg ^^ n) (start q))) =
      issued (stream ((agent_step cfg ^^ n) (start q)))"
    by (simp_all add: consistent_def)
next
  assume h: "phase r = AWAITING_MODEL \<and> iterations r < max_iterations cfg \<and>
    language_model cfg (question r) (step_sequence r) = NextActions a acts"
  let ?s = "agent_step cfg r"
  have s: "phase ?s = DISPATCHING_TOOLS" "iterations ?s = iterations r + 1"
    "step_sequence ?s = step_sequence r" "turn_actions ?s = a # acts"
    using h by (simp_all add: agent_step_def)
  {
    fix k
    assume k: "k \<le> length (a # acts)"
    then have "k \<le> length (turn_actions ?s)"
      by (simp add: s)
    from dispatch_funpow [OF s(1) this, of cfg]
    show "phase ((agent_step cfg ^^ Suc k) r) = DISPATCHING_TOOLS"
      and "iterations ((agent_step cfg ^^ Suc k) r) = iterations r + 1"
      and "step_sequence ((agent_step cfg ^^ Suc k) r) =
        step_sequence r @ map (\<lambda>x. (x, dispatch (registry cfg) x)) (take k (a # acts))"
      by (simp_all add: funpow_swap1 s)
  }
  let ?t = "(agent_step cfg ^^ length (a # acts)) ?s"
  have "length (a # acts) \<le> length (turn_actions ?s)"
    by (simp add: s)
  from dispatch_funpow [OF s(1) this, of cfg]
  have t: "phase ?t = DISPATCHING_TOOLS" "iterations ?t = iterations r + 1"
    "step_sequence ?t = step_sequence r @ map (\<lambda>x. (x, dispatch (registry cfg) x)) (a # acts)"
    "turn_actions ?t = []"
    by (simp_all add: s)
  have eq: "(agent_step cfg ^^ (length (a # acts) + 2)) r = agent_step cfg ?t"
    by (simp add: funpow_swap1)
  show "phase ((agent_step cfg ^^ (length (a # acts) + 2)) r) = AWAITING_MODEL"
    and "iterations ((agent_step cfg ^^ (length (a # acts) + 2)) r) = iterations r + 1"
    and "step_sequence ((agent_step cfg ^^ (length (a # acts) + 2)) r) =
        step_sequence r @ map (\<lambda>x. (x, dispatch (registry cfg) x)) (a # acts)"
    unfolding eq using t by (simp_all add: agent_step_def)
qed


text \<open>The sample run at its first and second model invocation.\<close>

lemma sample_first_query:
  "agent_step sample_config (start q) =
     \<lparr>phase = AWAITING_MODEL, question = q, step_sequence = [], turn_actions = [],
      iterations = 0, stream = [], final = None\<rparr>"
  by (simp add: agent_step_def start_def)

lemma sample_second_query:
  "(agent_step sample_config ^^ 5) (start q) =
     \<lparr>phase = AWAITING_MODEL, question = q,
      step_sequence =
        [(usd_search, \<lparr>for_invocation = 1, result = Result ''45.34 EUR''\<rparr>),
         (hotel_search, \<lparr>for_invocation = 2, result = Error ''timeout''\<rparr>)],
      turn_actions = [], iterations = 1,
      stream =
        [ActionIssued usd_search, ActionIssued hotel_search,
         ObservationRecorded usd_search \<lparr>for_invocation = 1, result = Result ''45.34 EUR''\<rparr>,
         ObservationRecorded hotel_search \<lparr>for_invocation = 2, result = Error ''timeout''\<rparr>],
      final = None\<rparr>"
  by (simp add: eval_nat_numeral agent_step_def start_def sample_config_def sample_model_def
      sample_registry_def dispatch_def usd_search_def hotel_search_def)

theorem turn_completes_before_next_model_invocation_witness:
  "phase ((agent_step sample_config ^^ 5) (start ''How much is 50 USD in Euros?'')) = AWAITING_MODEL \<and>
   turn_actions ((agent_step sample_config ^^ 5) (start ''How much is 50 USD in Euros?'')) = [] \<and>
   map fst (step_sequence ((agent_step sample_config ^^ 5) (start ''How much is 50 USD in Euros?''))) =
     issued (stream ((agent_step sample_config ^^ 5) (start ''How much is 50 USD in Euros?''))) \<and>
   phase (agent_step sample_config (start ''How much is 50 USD in Euros?'')) = AWAITING_MODEL \<and>
   iterations (agent_step sample_config (start ''How much is 50 USD in Euros?'')) <
     max_iterations sample_config \<and>
   language_model sample_config
     (question (agent_step sample_config (start ''How much is 50 USD in Euros?'')))
     (step_sequence (agent_step sample_config (start ''How much is 50 USD in Euros?''))) =
     NextActions usd_search [hotel_search] \<and>
   phase ((agent_step sample_config ^^ (length (usd_search # [hotel_search]) + 2))
     (agent_step sample_config (start ''How much is 50 USD in Euros?''))) = AWAITING_MODEL \<and>
   step_sequence ((agent_step sample_config ^^ (length (usd_search # [hotel_search]) + 2))
     (agent_step sample_config (start ''How much is 50 USD in Euros?''))) =
     [(usd_search, dispatch (registry sample_config) usd_search),
      (hotel_search, dispatch (registry sample_config) hotel_search)]"
proof -
  let ?q = "''How much is 50 USD in Euros?''"
  let ?r = "agent_step sample_config (start ?q)"
  have h1: "phase ((agent_step sample_config ^^ 5) (start ?q)) = AWAITING_MODEL"
    by (simp add: sample_second_query)
  have h2: "phase ?r = AWAITING_MODEL \<and> iterations ?r < max_iterations sample_config \<and>
      language_model sample_config (question ?r) (step_sequence ?r) =
        NextActions usd_search [hotel_search]"
    by (simp add: sample_first_query) (simp add: sample_config_def sample_model_def)
  from turn_completes_before_next_model_invocation
    [of sample_config ?q ?r usd_search "[hotel_search]"] h1 h2
  show ?thesis
    by (simp add: sample_first_query)
qed

subsection \<open>The notebook's consumer on the stream of the specified loop\<close>

text \<open>
  Every event of the specified stream is carried by a chunk of exactly one kind, so the
  consumer of notebook 09 reads the stream of any run to its end without an error.
\<close>

lemma chunk_of_one_event_kind: "one_event_kind (chunk_of e) \<and> actions_typed (chunk_of e)"
  by (cases e) (simp_all add: one_event_kind_def event_keys_def actions_typed_def)

lemma stream_consumer_on_run:
  "snd (stream_consumer (map chunk_of (stream (run cfg (start q)))) out) = None"
  by (rule stream_consumer_completes) (simp add: chunk_of_one_event_kind)

end
